theory Spec2Isabelle
  imports Complex_Main "HOL-Library.Sublist"
begin

section \<open>Data model of \<open>v20.py\<close>\<close>

text \<open>
  A pandas DataFrame is modelled as the list of its rows, in row order. The index of the
  frame (the trading date) is the field \<open>date\<close>, a day number. Each stage of the
  pipeline adds columns to the frame; the row type grows accordingly, one record
  extension per stage.

  Prices are float64 in the source. They are modelled as real numbers, with exact
  arithmetic: rounding is not modelled. What is modelled of IEEE arithmetic are the
  non-finite results of a division by zero, since numpy does not raise on them.
\<close>

datatype exn = ValueError | IndexError | AttributeError | FetchError

datatype fl = Fin real | PInf | NInf | NaN

record bar =
  date :: int
  Open :: real
  High :: real
  Low :: real
  Close :: real
  Symbol :: string

record kbar = bar +
  Keyword :: string

record gbar = kbar +
  GroupID :: nat
  Group :: string

record pbar = gbar +
  PercentageDifference :: fl

record vbar = pbar +
  ValidGroup :: string

record summary =
  sSymbol :: string
  Lowest_Low :: fl
  Highest_High :: fl
  Earliest_Date :: "int option"
  Percentage_Difference :: fl
  sValidGroup :: string

subsection \<open>float64 operations used by the pipeline\<close>

text \<open>Subtraction, division and multiplication of numpy float64 scalars. A division by
  zero gives an infinity of the sign of the numerator, or NaN for 0/0.\<close>

fun fl_sub :: "fl \<Rightarrow> fl \<Rightarrow> fl" where
  "fl_sub (Fin a) (Fin b) = Fin (a - b)"
| "fl_sub NaN _ = NaN"
| "fl_sub _ NaN = NaN"
| "fl_sub PInf PInf = NaN"
| "fl_sub NInf NInf = NaN"
| "fl_sub PInf _ = PInf"
| "fl_sub NInf _ = NInf"
| "fl_sub (Fin a) PInf = NInf"
| "fl_sub (Fin a) NInf = PInf"

fun fl_div :: "fl \<Rightarrow> fl \<Rightarrow> fl" where
  "fl_div (Fin a) (Fin b) =
     (if b = 0 then (if 0 < a then PInf else if a < 0 then NInf else NaN)
      else Fin (a / b))"
| "fl_div NaN _ = NaN"
| "fl_div _ NaN = NaN"
| "fl_div (Fin a) PInf = Fin 0"
| "fl_div (Fin a) NInf = Fin 0"
| "fl_div PInf (Fin b) = (if b < 0 then NInf else PInf)"
| "fl_div NInf (Fin b) = (if b < 0 then PInf else NInf)"
| "fl_div PInf PInf = NaN"
| "fl_div PInf NInf = NaN"
| "fl_div NInf PInf = NaN"
| "fl_div NInf NInf = NaN"

fun fl_mul :: "fl \<Rightarrow> fl \<Rightarrow> fl" where
  "fl_mul (Fin a) (Fin b) = Fin (a * b)"
| "fl_mul NaN _ = NaN"
| "fl_mul _ NaN = NaN"
| "fl_mul PInf (Fin b) = (if 0 < b then PInf else if b < 0 then NInf else NaN)"
| "fl_mul NInf (Fin b) = (if 0 < b then NInf else if b < 0 then PInf else NaN)"
| "fl_mul (Fin a) PInf = (if 0 < a then PInf else if a < 0 then NInf else NaN)"
| "fl_mul (Fin a) NInf = (if 0 < a then NInf else if a < 0 then PInf else NaN)"
| "fl_mul PInf PInf = PInf"
| "fl_mul NInf NInf = PInf"
| "fl_mul PInf NInf = NInf"
| "fl_mul NInf PInf = NInf"

text \<open>\<open>x >= t\<close> for a float64 \<open>x\<close> and a finite threshold \<open>t\<close>: every comparison
  with NaN is false.\<close>

fun fl_ge :: "fl \<Rightarrow> real \<Rightarrow> bool" where
  "fl_ge (Fin a) t = (t \<le> a)"
| "fl_ge PInf t = True"
| "fl_ge NInf t = False"
| "fl_ge NaN t = False"

subsection \<open>pandas operations used by the pipeline\<close>

text \<open>\<open>Series.min()\<close> and \<open>Series.max()\<close> of a column of finite values; NaN on an empty
  column. \<open>Index.min()\<close> of the dates; NaT (here \<open>None\<close>) on an empty index.\<close>

definition series_min :: "real list \<Rightarrow> fl" where
  "series_min xs = (if xs = [] then NaN else Fin (Min (set xs)))"

definition series_max :: "real list \<Rightarrow> fl" where
  "series_max xs = (if xs = [] then NaN else Fin (Max (set xs)))"

definition index_min :: "int list \<Rightarrow> int option" where
  "index_min ds = (if ds = [] then None else Some (Min (set ds)))"

text \<open>\<open>Series.unique()\<close>: the distinct values in order of first appearance.\<close>

fun unique :: "'a list \<Rightarrow> 'a list" where
  "unique [] = []"
| "unique (x # xs) = x # unique (filter (\<lambda>y. y \<noteq> x) xs)"

text \<open>\<open>Series.shift()\<close>: every value moves one row down, the first row gets a missing
  value.\<close>

definition shift :: "'a list \<Rightarrow> 'a option list" where
  "shift xs = (if xs = [] then [] else None # map Some (butlast xs))"

text \<open>\<open>Series.cumsum()\<close> of a boolean column: running count of the True entries.\<close>

fun cumsum_from :: "nat \<Rightarrow> bool list \<Rightarrow> nat list" where
  "cumsum_from acc [] = []"
| "cumsum_from acc (b # bs) =
     (let acc' = acc + (if b then 1 else 0) in acc' # cumsum_from acc' bs)"

definition cumsum :: "bool list \<Rightarrow> nat list" where
  "cumsum bs = cumsum_from 0 bs"

text \<open>\<open>.iloc[0]\<close> raises IndexError on an empty selection.\<close>

definition iloc0 :: "'a list \<Rightarrow> exn + 'a" where
  "iloc0 xs = (case xs of [] \<Rightarrow> Inl IndexError | x # _ \<Rightarrow> Inr x)"

text \<open>\<open>str(n)\<close> of a non-negative integer: its decimal digits.\<close>

definition digit :: "nat \<Rightarrow> char" where
  "digit d = char_of (48 + d)"

fun str_nat :: "nat \<Rightarrow> string" where
  "str_nat n = (if n < 10 then [digit n] else str_nat (n div 10) @ [digit (n mod 10)])"

declare str_nat.simps [simp del]

section \<open>The pipeline stages\<close>

definition PERCENTAGE_THRESHOLD :: real where
  "PERCENTAGE_THRESHOLD = 20"

definition mark_keywords :: "bar list \<Rightarrow> kbar list" where
  "mark_keywords stock_data =
     map (\<lambda>row. bar.extend row
            (kbar.fields (if Open row < Close row then ''green'' else ''red'')))
         stock_data"

definition assign_groups :: "kbar list \<Rightarrow> gbar list" where
  "assign_groups stock_data =
     (let kw = map Keyword stock_data;
          ids = cumsum (map2 (\<lambda>k p. Some k \<noteq> p) kw (shift kw))
      in map2 (\<lambda>row i. kbar.extend row
                 (gbar.fields i (Keyword row @ ''_'' @ str_nat i)))
              stock_data ids)"

text \<open>Line 73, for one group: \<open>((highest_high - lowest_low) / lowest_low) * 100\<close>.\<close>

definition percentage_diff :: "gbar list \<Rightarrow> fl" where
  "percentage_diff group_data =
     (let lowest_low = series_min (map Low group_data);
          highest_high = series_max (map High group_data)
      in fl_mul (fl_div (fl_sub highest_high lowest_low) lowest_low) (Fin 100))"

text \<open>The list \<open>percentage_diffs\<close> is built group by group and then assigned as a column
  by position; pandas raises ValueError when its length is not the number of rows.\<close>

definition percentage_diffs :: "gbar list \<Rightarrow> fl list" where
  "percentage_diffs stock_data =
     concat (map (\<lambda>group_id.
                    let group_data = filter (\<lambda>row. GroupID row = group_id) stock_data
                    in replicate (length group_data) (percentage_diff group_data))
                 (unique (map GroupID stock_data)))"

definition calculate_percentage_differences :: "gbar list \<Rightarrow> exn + pbar list" where
  "calculate_percentage_differences stock_data =
     (let diffs = percentage_diffs stock_data
      in if length diffs = length stock_data
         then Inr (map2 (\<lambda>row d. gbar.extend row (pbar.fields d)) stock_data diffs)
         else Inl ValueError)"

text \<open>The loop of \<open>identify_valid_groups\<close> over the unique group names; the threshold is
  the module constant, taken as a parameter.\<close>

fun valid_groups :: "real \<Rightarrow> pbar list \<Rightarrow> string list \<Rightarrow> exn + string list" where
  "valid_groups thr stock_data [] = Inr []"
| "valid_groups thr stock_data (group_name # rest) =
     (if sublist ''green'' group_name
      then (case iloc0 (map PercentageDifference
                         (filter (\<lambda>row. Group row = group_name) stock_data)) of
              Inl e \<Rightarrow> Inl e
            | Inr p \<Rightarrow>
                (case valid_groups thr stock_data rest of
                   Inl e \<Rightarrow> Inl e
                 | Inr vs \<Rightarrow> Inr (if fl_ge p thr then group_name # vs else vs)))
      else valid_groups thr stock_data rest)"

definition identify_valid_groups :: "real \<Rightarrow> pbar list \<Rightarrow> exn + vbar list" where
  "identify_valid_groups thr stock_data =
     (case valid_groups thr stock_data (unique (map Group stock_data)) of
        Inl e \<Rightarrow> Inl e
      | Inr vs \<Rightarrow>
          Inr (map (\<lambda>row. pbar.extend row
                      (vbar.fields (if Group row \<in> set vs then Group row else [])))
                   stock_data))"

definition remove_invalid_rows :: "vbar list \<Rightarrow> vbar list" where
  "remove_invalid_rows stock_data = filter (\<lambda>row. ValidGroup row \<noteq> []) stock_data"

fun transformed_data :: "vbar list \<Rightarrow> string list \<Rightarrow> exn + summary list" where
  "transformed_data stock_data [] = Inr []"
| "transformed_data stock_data (group_name # rest) =
     (if group_name \<noteq> []
      then (let group_data = filter (\<lambda>row. ValidGroup row = group_name) stock_data
            in case iloc0 group_data of
                 Inl e \<Rightarrow> Inl e
               | Inr first_row \<Rightarrow>
                   (case transformed_data stock_data rest of
                      Inl e \<Rightarrow> Inl e
                    | Inr out \<Rightarrow>
                        Inr (\<lparr> sSymbol = Symbol first_row,
                               Lowest_Low = series_min (map Low group_data),
                               Highest_High = series_max (map High group_data),
                               Earliest_Date = index_min (map date group_data),
                               Percentage_Difference = PercentageDifference first_row,
                               sValidGroup = group_name \<rparr> # out)))
      else transformed_data stock_data rest)"

definition transform_valid_groups :: "vbar list \<Rightarrow> exn + summary list" where
  "transform_valid_groups stock_data =
     transformed_data stock_data (unique (map ValidGroup stock_data))"

text \<open>The body of the loop of \<open>main\<close> after the fetch: lines 186 to 191.\<close>

definition pipeline :: "real \<Rightarrow> bar list \<Rightarrow> exn + summary list" where
  "pipeline thr stock_data =
     (case calculate_percentage_differences (assign_groups (mark_keywords stock_data)) of
        Inl e \<Rightarrow> Inl e
      | Inr pd \<Rightarrow>
          (case identify_valid_groups thr pd of
             Inl e \<Rightarrow> Inl e
           | Inr vd \<Rightarrow> transform_valid_groups (remove_invalid_rows vd)))"

text \<open>\<open>yf.download\<close> is the external collaborator: a parameter that returns the rows of
  a symbol or raises. The date window is fixed for one run of \<open>main\<close> and is part of the
  parameter. \<open>fetch_stock_data\<close> asks for the \<open>.NS\<close> symbol and sets the Symbol column to
  the symbol as given.\<close>

definition fetch_stock_data :: "(string \<Rightarrow> exn + bar list) \<Rightarrow> string \<Rightarrow> exn + bar list" where
  "fetch_stock_data download symbol =
     (let oldSymbol = symbol;
          symbol' = (if \<not> suffix ''.NS'' symbol then symbol @ ''.NS'' else symbol)
      in case download symbol' of
           Inl e \<Rightarrow> Inl e
         | Inr stock_data \<Rightarrow> Inr (map (\<lambda>row. row\<lparr>Symbol := oldSymbol\<rparr>) stock_data))"

text \<open>The loop of \<open>main\<close>: there is no exception handler, so the first exception ends the
  run. The result is the frame \<open>combined_data\<close> handed to \<open>save_to_csv\<close>.\<close>

fun main_loop ::
  "real \<Rightarrow> (string \<Rightarrow> exn + bar list) \<Rightarrow> summary list \<Rightarrow> string list \<Rightarrow> exn + summary list"
where
  "main_loop thr download combined_data [] = Inr combined_data"
| "main_loop thr download combined_data (symbol # symbols) =
     (case fetch_stock_data download symbol of
        Inl e \<Rightarrow> Inl e
      | Inr stock_data \<Rightarrow>
          (case pipeline thr stock_data of
             Inl e \<Rightarrow> Inl e
           | Inr out \<Rightarrow> main_loop thr download (combined_data @ out) symbols))"

definition main :: "real \<Rightarrow> (string \<Rightarrow> exn + bar list) \<Rightarrow> string list \<Rightarrow> exn + summary list" where
  "main thr download symbols = main_loop thr download [] symbols"

section \<open>Runs, as the specification describes them\<close>

text \<open>
  The definitions of this section are not taken from the source. \<open>runs_by\<close> cuts a
  sequence into its maximal runs of consecutive elements with the same value of \<open>f\<close>;
  the \<open>spec_\<close> definitions follow the wording of the data model: direction, run,
  run statistics, breakout candidate, summary record.
\<close>

function runs_by :: "('a \<Rightarrow> 'k) \<Rightarrow> 'a list \<Rightarrow> 'a list list" where
  "runs_by f [] = []"
| "runs_by f (x # xs) =
     (x # takeWhile (\<lambda>y. f y = f x) xs) # runs_by f (dropWhile (\<lambda>y. f y = f x) xs)"
  by pat_completeness auto
termination
  by (relation "measure (\<lambda>(f, xs). length xs)") (auto simp: length_dropWhile_le less_Suc_eq_le)

datatype direction = Up | Down

definition spec_direction :: "bar \<Rightarrow> direction" where
  "spec_direction b = (if Open b < Close b then Up else Down)"

definition spec_runs :: "bar list \<Rightarrow> bar list list" where
  "spec_runs bars = runs_by spec_direction bars"

definition spec_low :: "bar list \<Rightarrow> fl" where
  "spec_low run = series_min (map Low run)"

definition spec_high :: "bar list \<Rightarrow> fl" where
  "spec_high run = series_max (map High run)"

definition spec_range_pct :: "bar list \<Rightarrow> fl" where
  "spec_range_pct run =
     fl_mul (fl_div (fl_sub (spec_high run) (spec_low run)) (spec_low run)) (Fin 100)"

definition spec_breakout :: "real \<Rightarrow> bar list \<Rightarrow> bool" where
  "spec_breakout thr run \<longleftrightarrow> spec_direction (hd run) = Up \<and> fl_ge (spec_range_pct run) thr"

definition spec_summary :: "bar list \<Rightarrow> string \<times> fl \<times> fl \<times> int option \<times> fl" where
  "spec_summary run =
     (Symbol (hd run), spec_low run, spec_high run, index_min (map date run), spec_range_pct run)"

section \<open>Auxiliary functions of the proofs\<close>

text \<open>The run identifiers as a single pass: \<open>p\<close> is the keyword of the previous row,
  \<open>acc\<close> the identifier of its run.\<close>

fun run_ids :: "string option \<Rightarrow> nat \<Rightarrow> string list \<Rightarrow> nat list" where
  "run_ids p acc [] = []"
| "run_ids p acc (k # ks) =
     (let acc' = acc + (if Some k \<noteq> p then 1 else 0) in acc' # run_ids (Some k) acc' ks)"

text \<open>The columns that the stages add to the rows of one run.\<close>

definition label_row :: "nat \<Rightarrow> kbar \<Rightarrow> gbar" where
  "label_row i row = kbar.extend row (gbar.fields i (Keyword row @ ''_'' @ str_nat i))"

fun label_runs :: "nat \<Rightarrow> kbar list list \<Rightarrow> gbar list list" where
  "label_runs n [] = []"
| "label_runs n (r # rs) = map (label_row (Suc n)) r # label_runs (Suc n) rs"

text \<open>What \<open>calculate_percentage_differences\<close>, \<open>identify_valid_groups\<close> and
  \<open>transform_valid_groups\<close> make of the rows of one group.\<close>

definition pblock :: "gbar list \<Rightarrow> pbar list" where
  "pblock b = map (\<lambda>row. gbar.extend row (pbar.fields (percentage_diff b))) b"

definition qualp :: "real \<Rightarrow> pbar list \<Rightarrow> bool" where
  "qualp thr b \<longleftrightarrow> sublist ''green'' (Group (hd b)) \<and> fl_ge (PercentageDifference (hd b)) thr"

definition vblock :: "real \<Rightarrow> pbar list \<Rightarrow> vbar list" where
  "vblock thr b =
     map (\<lambda>row. pbar.extend row (vbar.fields (if qualp thr b then Group (hd b) else []))) b"

definition summ :: "vbar list \<Rightarrow> summary" where
  "summ b = \<lparr> sSymbol = Symbol (hd b),
              Lowest_Low = series_min (map Low b),
              Highest_High = series_max (map High b),
              Earliest_Date = index_min (map date b),
              Percentage_Difference = PercentageDifference (hd b),
              sValidGroup = ValidGroup (hd b) \<rparr>"

text \<open>The frame after \<open>assign_groups\<close>, cut into its groups: every group is non-empty,
  carries one identifier and one name, and the identifiers differ from group to group.\<close>

definition gblocks_ok :: "gbar list list \<Rightarrow> bool" where
  "gblocks_ok B \<longleftrightarrow>
     (\<forall>b\<in>set B. b \<noteq> [] \<and>
        (\<forall>r\<in>set b. GroupID r = GroupID (hd b) \<and> Group r = Group (hd b)) \<and>
        Group (hd b) = Keyword (hd b) @ ''_'' @ str_nat (GroupID (hd b)) \<and>
        Keyword (hd b) \<in> {''green'', ''red''}) \<and>
     distinct (map (\<lambda>b. GroupID (hd b)) B)"

text \<open>The frame after \<open>calculate_percentage_differences\<close>, cut into its groups.\<close>

definition pblocks_ok :: "pbar list list \<Rightarrow> bool" where
  "pblocks_ok P \<longleftrightarrow>
     (\<forall>b\<in>set P. b \<noteq> [] \<and> (\<forall>r\<in>set b. Group r = Group (hd b)) \<and> Group (hd b) \<noteq> []) \<and>
     distinct (map (\<lambda>b. Group (hd b)) P)"

section \<open>Basic facts about the modelled operations\<close>

lemma set_unique: "set (unique xs) = set xs"
  by (induction xs rule: unique.induct) auto

lemma distinct_unique: "distinct (unique xs)"
  by (induction xs rule: unique.induct) (auto simp: set_unique)

lemma unique_map_filter:
  "filter (\<lambda>y. y \<noteq> f x) (map f xs) = map f (filter (\<lambda>r. f r \<noteq> f x) xs)"
  by (induction xs) auto

lemma sum_group_sizes:
  "sum_list (map (\<lambda>g. length (filter (\<lambda>r. f r = g) xs)) (unique (map f xs))) = length xs"
proof (induction "length xs" arbitrary: xs rule: less_induct)
  case less
  show ?case
  proof (cases xs)
    case Nil
    then show ?thesis by simp
  next
    case (Cons x xs')
    let ?rest = "filter (\<lambda>r. f r \<noteq> f x) xs'"
    have len: "length ?rest < length xs" using Cons by (simp add: less_Suc_eq_le)
    have ih: "sum_list (map (\<lambda>g. length (filter (\<lambda>r. f r = g) ?rest)) (unique (map f ?rest)))
                = length ?rest"
      using less.hyps [OF len] .
    have same: "\<And>g. g \<in> set (unique (map f ?rest)) \<Longrightarrow>
        length (filter (\<lambda>r. f r = g) xs) = length (filter (\<lambda>r. f r = g) ?rest)"
    proof -
      fix g assume "g \<in> set (unique (map f ?rest))"
      then have ne: "g \<noteq> f x" by (auto simp: set_unique)
      have "filter (\<lambda>r. f r = g) ?rest = filter (\<lambda>r. f r = g) xs'"
        using ne by (auto intro: filter_cong)
      then show "length (filter (\<lambda>r. f r = g) xs) = length (filter (\<lambda>r. f r = g) ?rest)"
        using ne Cons by auto
    qed
    have "sum_list (map (\<lambda>g. length (filter (\<lambda>r. f r = g) xs)) (unique (map f ?rest)))
          = length ?rest"
      using ih same by (simp cong: map_cong)
    moreover have "length (filter (\<lambda>r. f r = f x) xs') + length ?rest = length xs'"
      using sum_length_filter_compl [of "\<lambda>r. f r = f x" xs'] by simp
    ultimately show ?thesis
      using Cons by (simp add: unique_map_filter)
  qed
qed

lemma length_percentage_diffs: "length (percentage_diffs sd) = length sd"
  unfolding percentage_diffs_def
  using sum_group_sizes [of GroupID sd]
  by (simp add: length_concat comp_def Let_def)

lemma length_shift: "length (shift xs) = length xs"
  by (simp add: shift_def)

lemma length_cumsum_from: "length (cumsum_from a bs) = length bs"
  by (induction bs arbitrary: a) (auto simp: Let_def)

lemma length_assign_groups: "length (assign_groups ks) = length ks"
  by (simp add: assign_groups_def Let_def cumsum_def length_cumsum_from length_shift)

lemma truncate_mark: "map bar.truncate (mark_keywords bars) = bars"
  by (induction bars) (auto simp: mark_keywords_def bar.defs kbar.defs)

lemma map2_trunc:
  "length ys = length xs \<Longrightarrow> (\<And>x y. t (g x y) = x) \<Longrightarrow> map t (map2 g xs ys) = xs"
  by (induction xs ys rule: list_induct2') auto

lemma truncate_assign: "map kbar.truncate (assign_groups ks) = ks"
  unfolding assign_groups_def Let_def
  by (rule map2_trunc) (auto simp: cumsum_def length_cumsum_from length_shift kbar.defs gbar.defs)

lemma calc_total:
  "calculate_percentage_differences sd =
     Inr (map2 (\<lambda>row d. gbar.extend row (pbar.fields d)) sd (percentage_diffs sd))"
  by (simp add: calculate_percentage_differences_def length_percentage_diffs Let_def)

lemma truncate_calc:
  "map gbar.truncate (map2 (\<lambda>row d. gbar.extend row (pbar.fields d)) sd (percentage_diffs sd)) = sd"
  by (rule map2_trunc) (auto simp: length_percentage_diffs gbar.defs pbar.defs)

section \<open>Frames made of blocks with distinct keys\<close>

lemma filter_block_all:
  "\<forall>r\<in>set b. key r = k \<Longrightarrow> filter (\<lambda>r. key r = k) b = b"
  by (induction b) auto

lemma filter_block_none:
  "\<forall>r\<in>set b. key r \<noteq> k \<Longrightarrow> filter (\<lambda>r. key r = k) b = []"
  by (induction b) auto

lemma distinct_head_neq: "distinct (map kb (c # bs)) \<Longrightarrow> d \<in> set bs \<Longrightarrow> kb d \<noteq> kb c"
  by (metis distinct.simps(2) imageI list.simps(9) set_map)

lemma filter_concat_blocks:
  assumes "\<forall>b\<in>set bs. \<forall>r\<in>set b. key r = kb b" and "distinct (map kb bs)" and "b \<in> set bs"
  shows "filter (\<lambda>r. key r = kb b) (concat bs) = b"
  using assms
proof (induction bs)
  case Nil
  then show ?case by simp
next
  case (Cons c bs)
  show ?case
  proof (cases "b = c")
    case True
    have "\<forall>d\<in>set bs. \<forall>r\<in>set d. key r \<noteq> kb c"
    proof (intro ballI)
      fix d r assume d: "d \<in> set bs" and r: "r \<in> set d"
      have "key r = kb d" using Cons.prems(1) d r by simp
      moreover have "kb d \<noteq> kb c" using Cons.prems(2) d by (rule distinct_head_neq)
      ultimately show "key r \<noteq> kb c" by simp
    qed
    then have "filter (\<lambda>r. key r = kb c) (concat bs) = []"
      by (auto simp: filter_empty_conv)
    moreover have "filter (\<lambda>r. key r = kb c) c = c"
      using Cons.prems(1) by (intro filter_block_all) simp
    ultimately show ?thesis using True by simp
  next
    case False
    then have mem: "b \<in> set bs" using Cons.prems(3) by simp
    then have "kb b \<noteq> kb c" using Cons.prems(2) by (intro distinct_head_neq)
    then have "filter (\<lambda>r. key r = kb b) c = []"
      using Cons.prems(1) by (intro filter_block_none) simp
    moreover have "filter (\<lambda>r. key r = kb b) (concat bs) = b"
      using Cons.IH Cons.prems(1,2) mem by simp
    ultimately show ?thesis by simp
  qed
qed

lemma unique_concat_blocks:
  assumes "\<forall>b\<in>set bs. b \<noteq> [] \<and> (\<forall>r\<in>set b. key r = kb b)" and "distinct (map kb bs)"
  shows "unique (map key (concat bs)) = map kb bs"
  using assms
proof (induction bs)
  case Nil
  then show ?case by simp
next
  case (Cons c bs)
  from Cons.prems(1) obtain r c' where c: "c = r # c'" by (cases c) auto
  have kr: "key r = kb c" using Cons.prems(1) c by simp
  have own: "filter (\<lambda>y. y \<noteq> kb c) (map key c') = []"
    using Cons.prems(1) c by (auto simp: filter_empty_conv)
  have "\<forall>y\<in>set (map key (concat bs)). y \<noteq> kb c"
  proof
    fix y assume "y \<in> set (map key (concat bs))"
    then obtain d r where d: "d \<in> set bs" and r: "r \<in> set d" and y: "y = key r" by auto
    have "key r = kb d" using Cons.prems(1) d r by simp
    moreover have "kb d \<noteq> kb c" using Cons.prems(2) d by (rule distinct_head_neq)
    ultimately show "y \<noteq> kb c" using y by simp
  qed
  then have others: "filter (\<lambda>y. y \<noteq> kb c) (map key (concat bs)) = map key (concat bs)"
    by (simp only: filter_id_conv)
  have "unique (map key (concat (c # bs))) = kb c # unique (map key (concat bs))"
    using own others by (simp add: c kr)
  then show ?case using Cons.IH Cons.prems by simp
qed

lemma map2_replicate_const:
  "map2 g b (replicate (length b) c) = map (\<lambda>row. g row c) b"
  by (induction b) auto

lemma map2_concat_replicate:
  "map2 g (concat bs) (concat (map (\<lambda>b. replicate (length b) (v b)) bs))
     = concat (map (\<lambda>b. map (\<lambda>row. g row (v b)) b) bs)"
proof (induction bs)
  case Nil
  then show ?case by simp
next
  case (Cons b bs)
  show ?case using Cons.IH by (simp add: map2_replicate_const)
qed

lemma filter_concat_select:
  "\<forall>b\<in>set bs. filter Q b = (if q b then b else []) \<Longrightarrow>
   filter Q (concat bs) = concat (filter q bs)"
  by (induction bs) auto


section \<open>Group names\<close>

lemma of_char_digit: "d < 10 \<Longrightarrow> (of_char (digit d) :: nat) = 48 + d"
  by (simp add: digit_def)

lemma str_nat_value:
  "foldl (\<lambda>a c. 10 * a + (of_char c - 48)) 0 (str_nat n) = n"
proof (induction n rule: str_nat.induct)
  case (1 n)
  show ?case
  proof (cases "n < 10")
    case True
    then show ?thesis by (subst str_nat.simps) (simp add: of_char_digit)
  next
    case False
    have "n mod 10 < 10" by simp
    then have d: "(of_char (digit (n mod 10)) :: nat) = 48 + n mod 10" by (rule of_char_digit)
    show ?thesis using False "1.IH" d by (subst str_nat.simps) simp
  qed
qed

lemma str_nat_inj: "str_nat m = str_nat n \<Longrightarrow> m = n"
  by (metis str_nat_value)

lemma digit_neq_g: "d < 10 \<Longrightarrow> digit d \<noteq> CHR ''g''"
  using of_char_digit [of d] by (auto simp: )

lemma g_notin_str_nat: "CHR ''g'' \<notin> set (str_nat n)"
proof (induction n rule: str_nat.induct)
  case (1 n)
  show ?case
  proof (cases "n < 10")
    case True
    then show ?thesis using digit_neq_g [of n] by (subst str_nat.simps) auto
  next
    case False
    have "n mod 10 < 10" by simp
    then have "digit (n mod 10) \<noteq> CHR ''g''" by (rule digit_neq_g)
    then show ?thesis using False "1.IH" by (subst str_nat.simps) auto
  qed
qed

lemma sublist_green_green: "sublist ''green'' (''green'' @ ''_'' @ str_nat i)"
  by (rule prefix_imp_sublist) simp

lemma sublist_green_red: "\<not> sublist ''green'' (''red'' @ ''_'' @ str_nat i)"
proof
  assume "sublist ''green'' (''red'' @ ''_'' @ str_nat i)"
  then have "set ''green'' \<subseteq> set (''red'' @ ''_'' @ str_nat i)" by (rule set_mono_sublist)
  then show False using g_notin_str_nat [of i] by auto
qed

lemma group_name_inj:
  assumes "k \<in> {''green'', ''red''}" "k' \<in> {''green'', ''red''}"
    and "k @ ''_'' @ str_nat i = k' @ ''_'' @ str_nat j"
  shows "k = k' \<and> i = j"
  using assms by (auto dest: str_nat_inj)


section \<open>Run Segmenter: the groups are the maximal runs\<close>

lemma zip_butlast_Cons:
  "zip ks (map Some (butlast (k # ks))) = zip ks (Some k # map Some (butlast ks))"
  by (cases ks) auto

lemma cumsum_run_ids:
  "cumsum_from acc (map2 (\<lambda>k p. Some k \<noteq> p) ks (p0 # map Some (butlast ks))) = run_ids p0 acc ks"
proof (induction ks arbitrary: p0 acc)
  case Nil
  then show ?case by simp
next
  case (Cons k ks)
  have "map2 (\<lambda>k p. Some k \<noteq> p) (k # ks) (p0 # map Some (butlast (k # ks)))
      = (Some k \<noteq> p0) # map2 (\<lambda>k p. Some k \<noteq> p) ks (Some k # map Some (butlast ks))"
    using zip_butlast_Cons [of ks k] by simp
  then show ?case
    using Cons.IH by (simp add: Let_def del: butlast.simps)
qed

lemma assign_groups_run_ids:
  "assign_groups ks = map2 (\<lambda>row i. label_row i row) ks (run_ids None 0 (map Keyword ks))"
proof (cases ks)
  case Nil
  then show ?thesis by (simp add: assign_groups_def shift_def cumsum_def)
next
  case (Cons k ks')
  then show ?thesis
    using cumsum_run_ids [of 0 "map Keyword ks" None]
    by (simp add: assign_groups_def shift_def cumsum_def Let_def label_row_def map_butlast)
qed

lemma run_ids_same:
  "\<forall>y\<in>set tw. f y = k \<Longrightarrow>
   run_ids (Some k) m (map f (tw @ dw)) = replicate (length tw) m @ run_ids (Some k) m (map f dw)"
  by (induction tw) (auto simp: Let_def)

lemma length_run_ids: "length (run_ids p n ks) = length ks"
  by (induction ks arbitrary: p n) (auto simp: Let_def)

lemma map2_replicate: "map2 (\<lambda>row i. g i row) xs (replicate (length xs) m) = map (g m) xs"
  by (induction xs) auto

lemma labelled_runs:
  "ks = [] \<or> p \<noteq> Some (Keyword (hd ks)) \<Longrightarrow>
   map2 (\<lambda>row i. label_row i row) ks (run_ids p n (map Keyword ks))
     = concat (label_runs n (runs_by Keyword ks))"
proof (induction "Keyword :: kbar \<Rightarrow> string" ks arbitrary: p n rule: runs_by.induct)
  case 1
  then show ?case by simp
next
  case (2 x xs)
  let ?tw = "takeWhile (\<lambda>y. Keyword y = Keyword x) xs"
  let ?dw = "dropWhile (\<lambda>y. Keyword y = Keyword x) xs"
  have split: "xs = ?tw @ ?dw" by simp
  have tw: "\<forall>y\<in>set ?tw. Keyword y = Keyword x" by (auto dest: set_takeWhileD)
  have dw: "?dw = [] \<or> Some (Keyword x) \<noteq> Some (Keyword (hd ?dw))"
  proof (cases "?dw = []")
    case True
    then show ?thesis by blast
  next
    case False
    from hd_dropWhile [OF False] show ?thesis by simp
  qed
  have ids: "run_ids p n (map Keyword (x # xs))
      = Suc n # replicate (length ?tw) (Suc n) @ run_ids (Some (Keyword x)) (Suc n) (map Keyword ?dw)"
    using "2.prems" run_ids_same [OF tw, of "Suc n" ?dw] by (simp add: Let_def)
  have ih: "map2 (\<lambda>row i. label_row i row) ?dw (run_ids (Some (Keyword x)) (Suc n) (map Keyword ?dw))
      = concat (label_runs (Suc n) (runs_by Keyword ?dw))"
    by (rule "2.hyps") (use dw in auto)
  have "map2 (\<lambda>row i. label_row i row) (x # xs) (run_ids p n (map Keyword (x # xs)))
      = label_row (Suc n) x #
        map2 (\<lambda>row i. label_row i row) (?tw @ ?dw)
          (replicate (length ?tw) (Suc n) @ run_ids (Some (Keyword x)) (Suc n) (map Keyword ?dw))"
    unfolding ids by simp
  also have "\<dots> = label_row (Suc n) x # map (label_row (Suc n)) ?tw @
        map2 (\<lambda>row i. label_row i row) ?dw (run_ids (Some (Keyword x)) (Suc n) (map Keyword ?dw))"
    by (simp add: map2_replicate del: takeWhile_dropWhile_id)
  finally show ?case using ih by simp
qed

lemma assign_groups_runs:
  "assign_groups ks = concat (label_runs 0 (runs_by Keyword ks))"
  by (simp add: assign_groups_run_ids labelled_runs)


section \<open>The stages, group by group\<close>

lemma percentage_diffs_blocks:
  assumes "gblocks_ok B"
  shows "percentage_diffs (concat B) = concat (map (\<lambda>b. replicate (length b) (percentage_diff b)) B)"
proof -
  have keyed: "\<forall>b\<in>set B. b \<noteq> [] \<and> (\<forall>r\<in>set b. GroupID r = GroupID (hd b))"
    using assms unfolding gblocks_ok_def by blast
  have keyed': "\<forall>b\<in>set B. \<forall>r\<in>set b. GroupID r = GroupID (hd b)"
    using keyed by blast
  have dist: "distinct (map (\<lambda>b. GroupID (hd b)) B)"
    using assms unfolding gblocks_ok_def by blast
  have uniq: "unique (map GroupID (concat B)) = map (\<lambda>b. GroupID (hd b)) B"
    using keyed dist by (rule unique_concat_blocks)
  have sel: "filter (\<lambda>row. GroupID row = GroupID (hd b)) (concat B) = b" if "b \<in> set B" for b
    using keyed' dist that by (rule filter_concat_blocks)
  have "percentage_diffs (concat B)
      = concat (map (\<lambda>b. let group_data = filter (\<lambda>row. GroupID row = GroupID (hd b)) (concat B)
                          in replicate (length group_data) (percentage_diff group_data)) B)"
    unfolding percentage_diffs_def uniq map_map comp_def ..
  also have "\<dots> = concat (map (\<lambda>b. replicate (length b) (percentage_diff b)) B)"
    by (rule arg_cong [where f = concat], rule map_cong [OF refl]) (simp only: sel Let_def)
  finally show ?thesis .
qed

lemma calculate_blocks:
  assumes "gblocks_ok B"
  shows "calculate_percentage_differences (concat B) = Inr (concat (map pblock B))"
proof -
  have "map2 (\<lambda>row d. gbar.extend row (pbar.fields d)) (concat B)
          (concat (map (\<lambda>b. replicate (length b) (percentage_diff b)) B))
        = concat (map (\<lambda>b. map (\<lambda>row. gbar.extend row (pbar.fields (percentage_diff b))) b) B)"
    by (rule map2_concat_replicate)
  then show ?thesis
    unfolding calc_total percentage_diffs_blocks [OF assms] pblock_def by (simp only:)
qed

lemma iloc0_nonempty: "b \<noteq> [] \<Longrightarrow> iloc0 (map f b) = Inr (f (hd b))"
  by (cases b) (simp_all add: iloc0_def)

lemma valid_groups_blocks:
  assumes ok: "pblocks_ok P" and sub: "set Q \<subseteq> set P"
  shows "valid_groups thr (concat P) (map (\<lambda>b. Group (hd b)) Q)
           = Inr (map (\<lambda>b. Group (hd b)) (filter (qualp thr) Q))"
  using sub
proof (induction Q)
  case Nil
  then show ?case by simp
next
  case (Cons b Q)
  have keyed: "\<forall>b\<in>set P. \<forall>r\<in>set b. Group r = Group (hd b)"
    using ok unfolding pblocks_ok_def by blast
  have dist: "distinct (map (\<lambda>b. Group (hd b)) P)"
    using ok unfolding pblocks_ok_def by blast
  have bP: "b \<in> set P" using Cons.prems by simp
  then have ne: "b \<noteq> []" using ok unfolding pblocks_ok_def by blast
  have sel: "filter (\<lambda>row. Group row = Group (hd b)) (concat P) = b"
    using keyed dist bP by (rule filter_concat_blocks)
  have first: "iloc0 (map PercentageDifference (filter (\<lambda>row. Group row = Group (hd b)) (concat P)))
                 = Inr (PercentageDifference (hd b))"
    unfolding sel using ne by (rule iloc0_nonempty)
  have ih: "valid_groups thr (concat P) (map (\<lambda>b. Group (hd b)) Q)
              = Inr (map (\<lambda>b. Group (hd b)) (filter (qualp thr) Q))"
    using Cons.IH Cons.prems by simp
  show ?case
    by (simp add: first ih qualp_def [of thr b])
qed

lemma mem_names_iff:
  assumes dist: "distinct (map f P)" and b: "b \<in> set P"
  shows "f b \<in> set (map f (filter q P)) \<longleftrightarrow> q b"
proof
  assume "f b \<in> set (map f (filter q P))"
  then obtain c where c: "c \<in> set P" "q c" "f c = f b" by auto
  have "inj_on f (set P)" using dist by (simp add: distinct_map)
  then have "c = b" using c b by (auto dest: inj_onD)
  then show "q b" using c by simp
next
  assume "q b" then show "f b \<in> set (map f (filter q P))" using b by auto
qed

lemma identify_blocks:
  assumes ok: "pblocks_ok P"
  shows "identify_valid_groups thr (concat P) = Inr (concat (map (vblock thr) P))"
proof -
  have keyed: "\<forall>b\<in>set P. b \<noteq> [] \<and> (\<forall>r\<in>set b. Group r = Group (hd b))"
    using ok unfolding pblocks_ok_def by blast
  have dist: "distinct (map (\<lambda>b. Group (hd b)) P)"
    using ok unfolding pblocks_ok_def by blast
  have uniq: "unique (map Group (concat P)) = map (\<lambda>b. Group (hd b)) P"
    using keyed dist by (rule unique_concat_blocks)
  let ?vs = "map (\<lambda>b. Group (hd b)) (filter (qualp thr) P)"
  have vg: "valid_groups thr (concat P) (unique (map Group (concat P))) = Inr ?vs"
    unfolding uniq using ok by (rule valid_groups_blocks) simp
  have blk: "map (\<lambda>row. pbar.extend row (vbar.fields (if Group row \<in> set ?vs then Group row else []))) b
               = vblock thr b" if "b \<in> set P" for b
  proof -
    have "Group row = Group (hd b)" if "row \<in> set b" for row
      using keyed \<open>b \<in> set P\<close> that by blast
    moreover have "Group (hd b) \<in> set ?vs \<longleftrightarrow> qualp thr b"
      using dist that by (rule mem_names_iff)
    ultimately show ?thesis
      unfolding vblock_def by (intro map_cong [OF refl]) simp
  qed
  have "map (\<lambda>row. pbar.extend row (vbar.fields (if Group row \<in> set ?vs then Group row else [])))
            (concat P) = concat (map (vblock thr) P)"
    unfolding map_concat map_map comp_def
    by (rule arg_cong [where f = concat], rule map_cong [OF refl]) (rule blk)
  then show ?thesis
    unfolding identify_valid_groups_def vg by (simp only: sum.case)
qed

lemma vblock_nonempty: "b \<noteq> [] \<Longrightarrow> vblock thr b \<noteq> []"
  by (simp add: vblock_def)

lemma ValidGroup_vblock:
  "r \<in> set (vblock thr b) \<Longrightarrow> ValidGroup r = (if qualp thr b then Group (hd b) else [])"
  by (auto simp: vblock_def pbar.defs vbar.defs)

lemma hd_vblock:
  "b \<noteq> [] \<Longrightarrow> hd (vblock thr b)
     = pbar.extend (hd b) (vbar.fields (if qualp thr b then Group (hd b) else []))"
  by (cases b) (simp_all add: vblock_def)

lemma filter_concat_map_select:
  "\<forall>b\<in>set P. filter Q (g b) = (if q b then g b else []) \<Longrightarrow>
   filter Q (concat (map g P)) = concat (map g (filter q P))"
  by (induction P) auto

lemma remove_blocks:
  assumes ok: "pblocks_ok P"
  shows "remove_invalid_rows (concat (map (vblock thr) P))
           = concat (map (vblock thr) (filter (qualp thr) P))"
proof -
  have one: "filter (\<lambda>row. ValidGroup row \<noteq> []) (vblock thr b)
               = (if qualp thr b then vblock thr b else [])" if "b \<in> set P" for b
  proof -
    have ne: "Group (hd b) \<noteq> []" using ok that unfolding pblocks_ok_def by blast
    show ?thesis
    proof (cases "qualp thr b")
      case True
      then have "\<forall>r\<in>set (vblock thr b). ValidGroup r \<noteq> []"
        using ne by (simp add: ValidGroup_vblock)
      then show ?thesis using True by (simp only: filter_id_conv if_True)
    next
      case False
      then have "\<forall>r\<in>set (vblock thr b). \<not> ValidGroup r \<noteq> []"
        by (simp add: ValidGroup_vblock)
      then show ?thesis using False by (simp only: filter_False if_False)
    qed
  qed
  have "filter (\<lambda>row. ValidGroup row \<noteq> []) (concat (map (vblock thr) P))
          = concat (map (vblock thr) (filter (qualp thr) P))"
    by (rule filter_concat_map_select) (use one in blast)
  then show ?thesis unfolding remove_invalid_rows_def .
qed

lemma transformed_blocks:
  assumes keyed: "\<forall>b\<in>set W. b \<noteq> [] \<and> (\<forall>r\<in>set b. ValidGroup r = ValidGroup (hd b))"
    and named: "\<forall>b\<in>set W. ValidGroup (hd b) \<noteq> []"
    and dist: "distinct (map (\<lambda>b. ValidGroup (hd b)) W)"
    and sub: "set Q \<subseteq> set W"
  shows "transformed_data (concat W) (map (\<lambda>b. ValidGroup (hd b)) Q) = Inr (map summ Q)"
  using sub
proof (induction Q)
  case Nil
  then show ?case by simp
next
  case (Cons b Q)
  have bW: "b \<in> set W" using Cons.prems by simp
  then have ne: "b \<noteq> []" and nm: "ValidGroup (hd b) \<noteq> []" using keyed named by blast+
  have keyed': "\<forall>b\<in>set W. \<forall>r\<in>set b. ValidGroup r = ValidGroup (hd b)" using keyed by blast
  have sel: "filter (\<lambda>row. ValidGroup row = ValidGroup (hd b)) (concat W) = b"
    using keyed' dist bW by (rule filter_concat_blocks)
  have first: "iloc0 b = Inr (hd b)" using ne by (cases b) (simp_all add: iloc0_def)
  have ih: "transformed_data (concat W) (map (\<lambda>b. ValidGroup (hd b)) Q) = Inr (map summ Q)"
    using Cons.IH Cons.prems by simp
  show ?case
    by (simp add: nm sel first ih summ_def Let_def)
qed

lemma transform_blocks:
  assumes keyed: "\<forall>b\<in>set W. b \<noteq> [] \<and> (\<forall>r\<in>set b. ValidGroup r = ValidGroup (hd b))"
    and named: "\<forall>b\<in>set W. ValidGroup (hd b) \<noteq> []"
    and dist: "distinct (map (\<lambda>b. ValidGroup (hd b)) W)"
  shows "transform_valid_groups (concat W) = Inr (map summ W)"
proof -
  have "unique (map ValidGroup (concat W)) = map (\<lambda>b. ValidGroup (hd b)) W"
    using keyed dist by (rule unique_concat_blocks)
  then show ?thesis
    unfolding transform_valid_groups_def
    using transformed_blocks [OF keyed named dist subset_refl] by simp
qed

lemma hd_pblock:
  "b \<noteq> [] \<Longrightarrow> hd (pblock b) = gbar.extend (hd b) (pbar.fields (percentage_diff b))"
  by (cases b) (simp_all add: pblock_def)

lemma Group_pblock: "r \<in> set (pblock b) \<Longrightarrow> \<exists>r'\<in>set b. Group r = Group r'"
  by (auto simp: pblock_def gbar.defs pbar.defs)

lemma PercentageDifference_pblock:
  "r \<in> set (pblock b) \<Longrightarrow> PercentageDifference r = percentage_diff b"
  by (auto simp: pblock_def gbar.defs pbar.defs)

lemma Group_hd_pblock: "b \<noteq> [] \<Longrightarrow> Group (hd (pblock b)) = Group (hd b)"
  by (simp add: hd_pblock gbar.defs pbar.defs)

lemma group_names_distinct:
  assumes "gblocks_ok B"
  shows "distinct (map (\<lambda>b. Group (hd b)) B)"
proof -
  have dist: "distinct (map (\<lambda>b. GroupID (hd b)) B)"
    using assms unfolding gblocks_ok_def by blast
  have "inj_on (\<lambda>b. Group (hd b)) (set B)"
  proof (rule inj_onI)
    fix b c assume b: "b \<in> set B" and c: "c \<in> set B" and eq: "Group (hd b) = Group (hd c)"
    have nb: "Group (hd b) = Keyword (hd b) @ ''_'' @ str_nat (GroupID (hd b))"
      and kb: "Keyword (hd b) \<in> {''green'', ''red''}"
      using assms b unfolding gblocks_ok_def by blast+
    have nc: "Group (hd c) = Keyword (hd c) @ ''_'' @ str_nat (GroupID (hd c))"
      and kc: "Keyword (hd c) \<in> {''green'', ''red''}"
      using assms c unfolding gblocks_ok_def by blast+
    have "Keyword (hd b) @ ''_'' @ str_nat (GroupID (hd b))
            = Keyword (hd c) @ ''_'' @ str_nat (GroupID (hd c))"
      using eq unfolding nb nc .
    then have "GroupID (hd b) = GroupID (hd c)"
      using group_name_inj [OF kb kc] by blast
    moreover have "inj_on (\<lambda>b. GroupID (hd b)) (set B)" using dist by (simp add: distinct_map)
    ultimately show "b = c" using b c by (auto dest: inj_onD)
  qed
  moreover have "distinct B" using dist by (simp add: distinct_map)
  ultimately show ?thesis by (simp add: distinct_map)
qed

lemma pblocks_ok_pblock:
  assumes "gblocks_ok B"
  shows "pblocks_ok (map pblock B)"
proof -
  have each: "pblock b \<noteq> [] \<and> (\<forall>r\<in>set (pblock b). Group r = Group (hd (pblock b))) \<and>
              Group (hd (pblock b)) \<noteq> []" if "b \<in> set B" for b
  proof -
    have ne: "b \<noteq> []" and same: "\<forall>r\<in>set b. Group r = Group (hd b)"
      and nm: "Group (hd b) = Keyword (hd b) @ ''_'' @ str_nat (GroupID (hd b))"
      using assms that unfolding gblocks_ok_def by blast+
    have "pblock b \<noteq> []" using ne by (simp add: pblock_def)
    moreover have "\<forall>r\<in>set (pblock b). Group r = Group (hd (pblock b))"
    proof
      fix r assume "r \<in> set (pblock b)"
      then obtain r' where "r' \<in> set b" "Group r = Group r'" using Group_pblock by blast
      then have "Group r = Group (hd b)" using same by simp
      then show "Group r = Group (hd (pblock b))" using Group_hd_pblock [OF ne] by simp
    qed
    moreover have "Group (hd (pblock b)) \<noteq> []" using nm Group_hd_pblock [OF ne] by simp
    ultimately show ?thesis by blast
  qed
  have "map (\<lambda>b. Group (hd b)) (map pblock B) = map (\<lambda>b. Group (hd b)) B"
    unfolding map_map comp_def
  proof (rule map_cong [OF refl])
    fix b assume "b \<in> set B"
    then have "b \<noteq> []" using assms unfolding gblocks_ok_def by blast
    then show "Group (hd (pblock b)) = Group (hd b)" by (rule Group_hd_pblock)
  qed
  then have "distinct (map (\<lambda>b. Group (hd b)) (map pblock B))"
    using group_names_distinct [OF assms] by (simp only:)
  moreover have "\<forall>p\<in>set (map pblock B).
      p \<noteq> [] \<and> (\<forall>r\<in>set p. Group r = Group (hd p)) \<and> Group (hd p) \<noteq> []"
  proof
    fix p assume "p \<in> set (map pblock B)"
    then obtain b where b: "b \<in> set B" and p: "p = pblock b" by auto
    show "p \<noteq> [] \<and> (\<forall>r\<in>set p. Group r = Group (hd p)) \<and> Group (hd p) \<noteq> []"
      unfolding p using b by (rule each)
  qed
  ultimately show ?thesis unfolding pblocks_ok_def by blast
qed

lemma vblocks_keyed:
  fixes thr :: real
  assumes ok: "pblocks_ok P"
  defines "W \<equiv> map (vblock thr) (filter (qualp thr) P)"
  shows "\<forall>b\<in>set W. b \<noteq> [] \<and> (\<forall>r\<in>set b. ValidGroup r = ValidGroup (hd b))"
    and "\<forall>b\<in>set W. ValidGroup (hd b) \<noteq> []"
    and "distinct (map (\<lambda>b. ValidGroup (hd b)) W)"
proof -
  have vg: "ValidGroup (hd (vblock thr b)) = Group (hd b)" if "b \<in> set P" "qualp thr b" for b
  proof -
    have "b \<noteq> []" using ok that unfolding pblocks_ok_def by blast
    then have "hd (vblock thr b) \<in> set (vblock thr b)" by (simp add: vblock_nonempty)
    then show ?thesis using that by (simp add: ValidGroup_vblock)
  qed
  show "\<forall>b\<in>set W. b \<noteq> [] \<and> (\<forall>r\<in>set b. ValidGroup r = ValidGroup (hd b))"
  proof
    fix w assume "w \<in> set W"
    then obtain b where b: "b \<in> set P" "qualp thr b" "w = vblock thr b" unfolding W_def by auto
    have ne: "b \<noteq> []" using ok b unfolding pblocks_ok_def by blast
    show "w \<noteq> [] \<and> (\<forall>r\<in>set w. ValidGroup r = ValidGroup (hd w))"
      using b ne vg [OF b(1,2)] by (simp add: vblock_nonempty ValidGroup_vblock)
  qed
  show "\<forall>b\<in>set W. ValidGroup (hd b) \<noteq> []"
  proof
    fix w assume "w \<in> set W"
    then obtain b where b: "b \<in> set P" "qualp thr b" "w = vblock thr b" unfolding W_def by auto
    have "Group (hd b) \<noteq> []" using ok b unfolding pblocks_ok_def by blast
    then show "ValidGroup (hd w) \<noteq> []" using b vg [OF b(1,2)] by simp
  qed
  have "map (\<lambda>b. ValidGroup (hd b)) W = map (\<lambda>b. Group (hd b)) (filter (qualp thr) P)"
    unfolding W_def map_map comp_def by (rule map_cong [OF refl]) (simp add: vg)
  moreover have "distinct (map (\<lambda>b. Group (hd b)) (filter (qualp thr) P))"
    using ok unfolding pblocks_ok_def by (simp add: distinct_map_filter)
  ultimately show "distinct (map (\<lambda>b. ValidGroup (hd b)) W)" by simp
qed

lemma pipeline_blocks:
  assumes ok: "gblocks_ok B" and seg: "assign_groups (mark_keywords bars) = concat B"
  shows "pipeline thr bars
           = Inr (map summ (map (vblock thr) (filter (qualp thr) (map pblock B))))"
proof -
  have pok: "pblocks_ok (map pblock B)" using ok by (rule pblocks_ok_pblock)
  have c: "calculate_percentage_differences (assign_groups (mark_keywords bars))
             = Inr (concat (map pblock B))"
    unfolding seg using ok by (rule calculate_blocks)
  have i: "identify_valid_groups thr (concat (map pblock B))
             = Inr (concat (map (vblock thr) (map pblock B)))"
    using pok by (rule identify_blocks)
  have r: "remove_invalid_rows (concat (map (vblock thr) (map pblock B)))
             = concat (map (vblock thr) (filter (qualp thr) (map pblock B)))"
    using pok by (rule remove_blocks)
  have t: "transform_valid_groups (concat (map (vblock thr) (filter (qualp thr) (map pblock B))))
             = Inr (map summ (map (vblock thr) (filter (qualp thr) (map pblock B))))"
    by (rule transform_blocks) (rule vblocks_keyed [OF pok])+
  show ?thesis unfolding pipeline_def c by (simp only: sum.case i r t)
qed


section \<open>Direction Classifier\<close>

lemma Keyword_mark:
  "i < length bars \<Longrightarrow>
   Keyword (mark_keywords bars ! i) =
     (if Open (bars ! i) < Close (bars ! i) then ''green'' else ''red'')"
  by (simp add: mark_keywords_def bar.defs kbar.defs)

text \<open>
  Claim C5. \<open>mark_keywords\<close> keeps the number of rows and labels every bar: the label is
  green (up) exactly when the open is strictly less than the close, and red (down)
  otherwise; a bar whose open equals its close is red.
\<close>

theorem mark_keywords_direction:
  "length (mark_keywords bars) = length bars \<and>
   (\<forall>i<length bars.
      (Keyword (mark_keywords bars ! i) = ''green'' \<longleftrightarrow> Open (bars ! i) < Close (bars ! i)) \<and>
      (Keyword (mark_keywords bars ! i) = ''red'' \<longleftrightarrow> \<not> Open (bars ! i) < Close (bars ! i)) \<and>
      (Open (bars ! i) = Close (bars ! i) \<longrightarrow> Keyword (mark_keywords bars ! i) = ''red''))"
  by (simp add: Keyword_mark) (simp add: mark_keywords_def)

theorem mark_keywords_direction_witness:
  "Keyword (mark_keywords
      [\<lparr>date = 1, Open = 10, High = 12, Low = 9, Close = 10, Symbol = ''X''\<rparr>,
       \<lparr>date = 2, Open = 10, High = 12, Low = 9, Close = 11, Symbol = ''X''\<rparr>] ! 0) = ''red'' \<and>
   Keyword (mark_keywords
      [\<lparr>date = 1, Open = 10, High = 12, Low = 9, Close = 10, Symbol = ''X''\<rparr>,
       \<lparr>date = 2, Open = 10, High = 12, Low = 9, Close = 11, Symbol = ''X''\<rparr>] ! 1) = ''green''"
  using mark_keywords_direction
    [of "[\<lparr>date = 1, Open = 10, High = 12, Low = 9, Close = 10, Symbol = ''X''\<rparr>,
          \<lparr>date = 2, Open = 10, High = 12, Low = 9, Close = 11, Symbol = ''X''\<rparr>]"]
  by (simp add: All_less_Suc)

end
